theory Spec2Isabelle
  imports Main "HOL-Library.AList"
begin

section \<open>Values, records and exceptions\<close>

text \<open>
  A record is a Python dict from field names to JSON scalars. It is kept as an
  association list in the dict's iteration order; a dict has each key once, so the
  theorems about whole records assume \<open>distinct (map fst r)\<close>. Numbers are unbounded
  integers: a float behaves like an int in everything \<open>process_record\<close> does with a
  value (it is no \<open>str\<close>, it is truthy iff non-zero, it has neither \<open>split\<close> nor
  \<open>len\<close>). A character is a code point below 256.
\<close>

datatype pyval = VStr string | VInt int | VBool bool | VNone

datatype pyexc = ValueError | IndexError | KeyError | AttributeError | TypeError

type_synonym pyrecord = "(string \<times> pyval) list"

fun truthy :: "pyval \<Rightarrow> bool" where
  "truthy (VStr s) = (s \<noteq> [])"
| "truthy (VInt n) = (n \<noteq> 0)"
| "truthy (VBool b) = b"
| "truthy VNone = False"

section \<open>Character classes\<close>

text \<open>Python's Unicode classes, restricted to the code points below 256.\<close>

definition code :: "char \<Rightarrow> nat" where
  "code c = of_char c"

definition is_decimal :: "char \<Rightarrow> bool" where
  \<comment> \<open>\<open>\d\<close> of a str pattern\<close>
  "is_decimal c = (48 \<le> code c \<and> code c \<le> 57)"

definition is_upper_or_decimal :: "char \<Rightarrow> bool" where
  \<comment> \<open>\<open>[A-Z0-9]\<close>\<close>
  "is_upper_or_decimal c = ((65 \<le> code c \<and> code c \<le> 90) \<or> (48 \<le> code c \<and> code c \<le> 57))"

definition is_passport_letter :: "char \<Rightarrow> bool" where
  \<comment> \<open>\<open>[A-PR-WY]\<close>\<close>
  "is_passport_letter c =
     ((65 \<le> code c \<and> code c \<le> 80) \<or> (82 \<le> code c \<and> code c \<le> 87) \<or> code c = 89)"

definition is_word :: "char \<Rightarrow> bool" where
  \<comment> \<open>\<open>\w\<close> of a str pattern: alphanumeric or underscore\<close>
  "is_word c =
     (let n = code c in
        (48 \<le> n \<and> n \<le> 57) \<or> (65 \<le> n \<and> n \<le> 90) \<or> n = 95 \<or> (97 \<le> n \<and> n \<le> 122) \<or>
        n = 170 \<or> n = 178 \<or> n = 179 \<or> n = 181 \<or> n = 185 \<or> n = 186 \<or>
        (188 \<le> n \<and> n \<le> 190) \<or> (192 \<le> n \<and> n \<le> 214) \<or> (216 \<le> n \<and> n \<le> 246) \<or>
        (248 \<le> n \<and> n \<le> 255))"

definition is_upi_char :: "char \<Rightarrow> bool" where
  \<comment> \<open>\<open>[\w.-]\<close>\<close>
  "is_upi_char c = (is_word c \<or> c = CHR ''.'' \<or> c = CHR ''-'')"

definition is_at :: "char \<Rightarrow> bool" where
  "is_at c = (c = CHR ''@'')"

definition is_digit_char :: "char \<Rightarrow> bool" where
  \<comment> \<open>one character of \<open>str.isdigit\<close>: the decimals and the superscripts 2, 3, 1\<close>
  "is_digit_char c =
     ((48 \<le> code c \<and> code c \<le> 57) \<or> code c = 178 \<or> code c = 179 \<or> code c = 185)"

definition isdigit :: "string \<Rightarrow> bool" where
  "isdigit s = (s \<noteq> [] \<and> list_all is_digit_char s)"

definition is_space :: "char \<Rightarrow> bool" where
  \<comment> \<open>the separators of \<open>str.split()\<close>\<close>
  "is_space c =
     ((9 \<le> code c \<and> code c \<le> 13) \<or> (28 \<le> code c \<and> code c \<le> 32) \<or>
      code c = 133 \<or> code c = 160)"

section \<open>Regular expressions\<close>

text \<open>
  The four patterns use anchors, character classes and bounded or unbounded repetition
  of a class. \<open>re.match\<close> starts at position 0 and need not consume the whole string;
  \<open>$\<close> holds at the end of the string and just before a newline that ends the string.
  A matching state is the number of characters consumed and the rest of the string;
  a repetition offers the longest repetition first.
\<close>

datatype regex = Bol | Eol | Rep "char \<Rightarrow> bool" nat "nat option"

type_synonym mstate = "nat \<times> string"

fun match_item :: "regex \<Rightarrow> mstate \<Rightarrow> mstate list" where
  "match_item Bol (pos, rest) = (if pos = 0 then [(pos, rest)] else [])"
| "match_item Eol (pos, rest) =
     (if rest = [] \<or> rest = [CHR 0x0A] then [(pos, rest)] else [])"
| "match_item (Rep cls lo hi) (pos, rest) =
     (let m = length (takeWhile cls rest);
          top = (case hi of None \<Rightarrow> m | Some h \<Rightarrow> min h m)
      in map (\<lambda>k. (pos + k, drop k rest)) (rev [lo..<Suc top]))"

fun match_seq :: "regex list \<Rightarrow> mstate \<Rightarrow> mstate list" where
  "match_seq [] st = [st]"
| "match_seq (x # xs) st = concat (map (match_seq xs) (match_item x st))"

definition re_match :: "regex list \<Rightarrow> string \<Rightarrow> bool" where
  "re_match p s = (match_seq p (0, s) \<noteq> [])"

definition pattern_phone :: "regex list" where
  "pattern_phone = [Bol, Rep is_decimal 10 (Some 10), Eol]"

definition pattern_aadhar :: "regex list" where
  "pattern_aadhar = [Bol, Rep is_decimal 12 (Some 12), Eol]"

definition pattern_passport :: "regex list" where
  "pattern_passport =
     [Bol, Rep is_passport_letter 1 (Some 1), Rep is_upper_or_decimal 6 (Some 9), Eol]"

definition pattern_upi_id :: "regex list" where
  "pattern_upi_id =
     [Bol, Rep is_upi_char 1 None, Rep is_at 1 (Some 1), Rep is_upi_char 1 None, Eol]"

definition patterns :: "string \<rightharpoonup> regex list" where
  "patterns = map_of
     [(''phone'', pattern_phone), (''aadhar'', pattern_aadhar),
      (''passport'', pattern_passport), (''upi_id'', pattern_upi_id)]"

definition combinatorial_pii :: "string list" where
  "combinatorial_pii = [''name'', ''email'', ''address'', ''device_id'', ''ip_address'']"

section \<open>Standalone detection\<close>

fun is_standalone_pii :: "string \<Rightarrow> pyval \<Rightarrow> bool" where
  "is_standalone_pii key (VStr s) =
     (if key = ''phone'' \<and> re_match pattern_phone s then True
      else if key = ''aadhar'' \<and> re_match pattern_aadhar s then True
      else if key = ''passport'' \<and> re_match pattern_passport s then True
      else if key = ''upi_id'' \<and> re_match pattern_upi_id s then True
      else False)"
| "is_standalone_pii key _ = False"

section \<open>Masking library\<close>

text \<open>
  Slices never raise: \<open>s[:2]\<close> is \<open>take 2 s\<close> and \<open>s[-2:]\<close> is \<open>drop (length s - 2) s\<close>,
  the whole string when it is shorter. Indexing \<open>s[0]\<close> raises IndexError on the empty
  string, and unpacking a split into two names raises ValueError unless it has two parts.
\<close>

definition stars :: "nat \<Rightarrow> string" where
  "stars n = replicate n (CHR ''*'')"

definition mask_phone :: "string \<Rightarrow> string" where
  "mask_phone phone = take 2 phone @ replicate 6 (CHR ''X'') @ drop (length phone - 2) phone"

definition mask_aadhar :: "string \<Rightarrow> string" where
  "mask_aadhar aadhar = ''XXXX XXXX '' @ drop (length aadhar - 4) aadhar"

definition mask_passport :: "string \<Rightarrow> string" where
  "mask_passport passport =
     (if length passport > 4
      then [passport ! 0] @ replicate (length passport - 4) (CHR ''X'')
           @ drop (length passport - 3) passport
      else passport)"

definition split_once :: "char \<Rightarrow> string \<Rightarrow> string list" where
  \<comment> \<open>\<open>s.split(sep, 1)\<close>\<close>
  "split_once sep s =
     (if sep \<in> set s
      then [takeWhile (\<lambda>c. c \<noteq> sep) s, tl (dropWhile (\<lambda>c. c \<noteq> sep) s)]
      else [s])"

definition mask_upi :: "string \<Rightarrow> pyexc + string" where
  "mask_upi upi =
     (case split_once (CHR ''@'') upi of
        [username, domain] \<Rightarrow>
          (if isdigit username \<and> length username = 10
           then Inr (mask_phone username @ ''@'' @ domain)
           else if username = [] then Inl IndexError
           else Inr ([username ! 0] @ stars (max 3 (length username - 1)) @ ''@'' @ domain))
      | _ \<Rightarrow> Inl ValueError)"

definition mask_email :: "string \<Rightarrow> pyexc + string" where
  "mask_email email =
     (case split_once (CHR ''@'') email of
        [local_part, domain] \<Rightarrow>
          (if length local_part > 1
           then Inr ([local_part ! 0] @ stars (max 3 (length local_part - 1)) @ ''@'' @ domain)
           else Inr (local_part @ ''***'' @ ''@'' @ domain))
      | _ \<Rightarrow> Inl ValueError)"

fun split_ws_acc :: "string \<Rightarrow> string \<Rightarrow> string list" where
  "split_ws_acc cur [] = (if cur = [] then [] else [cur])"
| "split_ws_acc cur (c # cs) =
     (if is_space c then (if cur = [] then split_ws_acc [] cs else cur # split_ws_acc [] cs)
      else split_ws_acc (cur @ [c]) cs)"

definition split_ws :: "string \<Rightarrow> string list" where
  \<comment> \<open>\<open>s.split()\<close>: the maximal runs of non-whitespace\<close>
  "split_ws s = split_ws_acc [] s"

fun join :: "string \<Rightarrow> string list \<Rightarrow> string" where
  "join sep [] = []"
| "join sep [w] = w"
| "join sep (w # ws) = w @ sep @ join sep ws"

definition mask_name_part :: "string \<Rightarrow> string" where
  "mask_name_part part =
     (if length part > 1 then [part ! 0] @ stars (max 3 (length part - 1))
      else part @ ''***'')"

definition mask_name :: "string \<Rightarrow> string" where
  "mask_name name = join '' '' (map mask_name_part (split_ws name))"

definition mask_address_word :: "string \<Rightarrow> string" where
  "mask_address_word word =
     (if isdigit word
      then (if length word > 2
            then [word ! 0] @ stars (length word - 2) @ [word ! (length word - 1)]
            else stars (length word))
      else (if length word > 1 then [word ! 0] @ stars (max 3 (length word - 1))
            else word @ ''***''))"

definition mask_address :: "string \<Rightarrow> string" where
  "mask_address address = join '' '' (map mask_address_word (split_ws address))"

definition mask_device_id :: "string \<Rightarrow> string" where
  "mask_device_id device_id =
     (if length device_id > 2
      then [device_id ! 0] @ stars (length device_id - 2)
           @ [device_id ! (length device_id - 1)]
      else stars (length device_id))"

fun split_all_acc :: "char \<Rightarrow> string \<Rightarrow> string \<Rightarrow> string list" where
  "split_all_acc sep cur [] = [cur]"
| "split_all_acc sep cur (c # cs) =
     (if c = sep then cur # split_all_acc sep [] cs else split_all_acc sep (cur @ [c]) cs)"

definition split_all :: "char \<Rightarrow> string \<Rightarrow> string list" where
  \<comment> \<open>\<open>s.split(sep)\<close>\<close>
  "split_all sep s = split_all_acc sep [] s"

definition mask_ip_address :: "string \<Rightarrow> string" where
  "mask_ip_address ip =
     (let parts = split_all (CHR ''.'') ip
      in if length parts = 4 then parts ! 0 @ ''.'' @ parts ! 1 @ ''.*.*'' else ip)"

section \<open>Processing a record\<close>

text \<open>
  The mask functions are written for strings. Python does not check the annotation, so
  a call with another value fails inside the function: \<open>value.split\<close> raises
  AttributeError, and \<open>len(value)\<close> and \<open>value[:2]\<close> raise TypeError.
\<close>

definition call_str :: "pyexc \<Rightarrow> (string \<Rightarrow> pyexc + string) \<Rightarrow> pyval \<Rightarrow> pyexc + pyval" where
  "call_str e f v =
     (case v of
        VStr s \<Rightarrow> (case f s of Inl x \<Rightarrow> Inl x | Inr t \<Rightarrow> Inr (VStr t))
      | _ \<Rightarrow> Inl e)"

definition assign :: "string \<Rightarrow> pyexc + pyval \<Rightarrow> pyrecord \<Rightarrow> pyexc + pyrecord" where
  \<comment> \<open>\<open>redacted_record[key] = ...\<close>, the right-hand side evaluated first\<close>
  "assign key res redacted =
     (case res of Inl x \<Rightarrow> Inl x | Inr v \<Rightarrow> Inr (AList.update key v redacted))"

definition redact_standalone :: "string \<Rightarrow> pyval \<Rightarrow> pyrecord \<Rightarrow> pyexc + pyrecord" where
  "redact_standalone key value redacted =
     (if key = ''phone'' then assign key (call_str TypeError (Inr \<circ> mask_phone) value) redacted
      else if key = ''aadhar'' then assign key (call_str TypeError (Inr \<circ> mask_aadhar) value) redacted
      else if key = ''passport'' then assign key (call_str TypeError (Inr \<circ> mask_passport) value) redacted
      else if key = ''upi_id'' then assign key (call_str AttributeError mask_upi value) redacted
      else Inr redacted)"

text \<open>
  The first loop: the state is the redacted copy, \<open>has_standalone_pii\<close> and
  \<open>combinatorial_fields_present\<close>.
\<close>

type_synonym scan_state = "pyrecord \<times> bool \<times> string list"

fun scan_fields :: "pyrecord \<Rightarrow> scan_state \<Rightarrow> pyexc + scan_state" where
  "scan_fields [] st = Inr st"
| "scan_fields ((key, value) # items) (redacted, has_standalone_pii, present) =
     (case (if is_standalone_pii key value
            then (case redact_standalone key value redacted of
                    Inl x \<Rightarrow> Inl x | Inr red \<Rightarrow> Inr (red, True))
            else Inr (redacted, has_standalone_pii)) of
        Inl x \<Rightarrow> Inl x
      | Inr (red, has) \<Rightarrow>
          scan_fields items
            (red, has, if key \<in> set combinatorial_pii \<and> truthy value then present @ [key] else present))"

definition lookup :: "pyrecord \<Rightarrow> string \<Rightarrow> pyexc + pyval" where
  \<comment> \<open>\<open>record[key]\<close>\<close>
  "lookup r key = (case map_of r key of None \<Rightarrow> Inl KeyError | Some v \<Rightarrow> Inr v)"

definition redact_combinatorial :: "string \<Rightarrow> pyval \<Rightarrow> pyrecord \<Rightarrow> pyexc + pyrecord" where
  "redact_combinatorial key value redacted =
     (if key = ''name'' then assign key (call_str AttributeError (Inr \<circ> mask_name) value) redacted
      else if key = ''email'' then assign key (call_str AttributeError mask_email value) redacted
      else if key = ''address'' then assign key (call_str AttributeError (Inr \<circ> mask_address) value) redacted
      else if key = ''device_id'' then assign key (call_str TypeError (Inr \<circ> mask_device_id) value) redacted
      else if key = ''ip_address'' then assign key (call_str AttributeError (Inr \<circ> mask_ip_address) value) redacted
      else Inr redacted)"

fun redact_fields :: "pyrecord \<Rightarrow> string list \<Rightarrow> pyrecord \<Rightarrow> pyexc + pyrecord" where
  "redact_fields r [] redacted = Inr redacted"
| "redact_fields r (key # keys) redacted =
     (case lookup r key of
        Inl x \<Rightarrow> Inl x
      | Inr value \<Rightarrow>
          (case redact_combinatorial key value redacted of
             Inl x \<Rightarrow> Inl x
           | Inr red \<Rightarrow> redact_fields r keys red))"

definition process_record :: "pyrecord \<Rightarrow> pyexc + (pyrecord \<times> bool)" where
  "process_record r =
     (case scan_fields r (r, False, []) of
        Inl x \<Rightarrow> Inl x
      | Inr (redacted, has_standalone_pii, present) \<Rightarrow>
          (let has_combinatorial_pii = (length present \<ge> 2) in
           case (if has_combinatorial_pii then redact_fields r present redacted
                 else Inr redacted) of
             Inl x \<Rightarrow> Inl x
           | Inr red \<Rightarrow> Inr (red, has_standalone_pii \<or> has_combinatorial_pii)))"

section \<open>What the specification talks about\<close>


definition standalone_match :: "pyrecord \<Rightarrow> bool" where
  "standalone_match r =
     (\<exists>kv \<in> set r. case (patterns (fst kv), snd kv) of
                       (Some p, VStr s) \<Rightarrow> re_match p s
                     | _ \<Rightarrow> False)"

definition combinatorial_present :: "pyrecord \<Rightarrow> string set" where
  "combinatorial_present r =
     {k \<in> set combinatorial_pii. case map_of r k of Some v \<Rightarrow> truthy v | None \<Rightarrow> False}"

definition is_present :: "string \<times> pyval \<Rightarrow> bool" where
  \<comment> \<open>the test of the first loop that appends a key to the present list\<close>
  "is_present kv = (fst kv \<in> set combinatorial_pii \<and> truthy (snd kv))"

text \<open>
  A run of \<open>n\<close> characters of the original value survives when some \<open>n\<close> consecutive
  characters of the value occur, consecutively, in the masked output.
\<close>

definition windows :: "nat \<Rightarrow> 'a list \<Rightarrow> 'a list list" where
  "windows n xs =
     (if n \<le> length xs then map (\<lambda>i. take n (drop i xs)) [0..<Suc (length xs - n)] else [])"

definition run_survives :: "nat \<Rightarrow> string \<Rightarrow> string \<Rightarrow> bool" where
  "run_survives n v out = (\<exists>w \<in> set (windows n v). w \<in> set (windows n out))"

text \<open>
  Two measures of a masked string, read from left to right after \<open>cur\<close> characters
  that are no stars: \<open>trail\<close> is the number of characters after the last star, and
  \<open>plain_ok n\<close> holds when no \<open>n\<close> consecutive characters are without a star.
\<close>

fun trail :: "nat \<Rightarrow> string \<Rightarrow> nat" where
  "trail cur [] = cur"
| "trail cur (c # cs) = (if c = CHR ''*'' then trail 0 cs else trail (Suc cur) cs)"

fun plain_ok :: "nat \<Rightarrow> nat \<Rightarrow> string \<Rightarrow> bool" where
  "plain_ok n cur [] = True"
| "plain_ok n cur (c # cs) =
     (if c = CHR ''*'' then plain_ok n 0 cs else Suc cur < n \<and> plain_ok n (Suc cur) cs)"

section \<open>The two loops of process_record\<close>

lemma assign_keys:
  "assign k res red = Inr red' \<Longrightarrow> k \<in> fst ` set red \<Longrightarrow> map fst red' = map fst red"
  by (force simp: assign_def update_keys split: sum.splits)


lemma redact_standalone_keys:
  "redact_standalone k v red = Inr red' \<Longrightarrow> k \<in> fst ` set red \<Longrightarrow> map fst red' = map fst red"
  by (auto simp: redact_standalone_def dest: assign_keys split: if_splits)




lemma scan_fields_present:
  "scan_fields items (red, has, pres) = Inr (red', has', pres') \<Longrightarrow>
     pres' = pres @ map fst (filter is_present items)"
proof (induction items arbitrary: red has pres)
  case Nil
  then show ?case by simp
next
  case (Cons kv items)
  obtain k v where kv: "kv = (k, v)" by (cases kv)
  from Cons.prems show ?case
    unfolding kv
    by (auto simp: is_present_def split: sum.splits if_splits prod.splits dest!: Cons.IH)
qed

lemma scan_fields_has:
  "scan_fields items (red, has, pres) = Inr (red', has', pres') \<Longrightarrow>
     has' = (has \<or> (\<exists>kv \<in> set items. is_standalone_pii (fst kv) (snd kv)))"
proof (induction items arbitrary: red has pres)
  case Nil
  then show ?case by simp
next
  case (Cons kv items)
  obtain k v where kv: "kv = (k, v)" by (cases kv)
  from Cons.prems show ?case
    unfolding kv
    by (auto split: sum.splits if_splits prod.splits dest!: Cons.IH)
qed

lemma scan_fields_keys:
  "scan_fields items (red, has, pres) = Inr (red', has', pres') \<Longrightarrow>
     fst ` set items \<subseteq> fst ` set red \<Longrightarrow> map fst red' = map fst red"
proof (induction items arbitrary: red has pres)
  case Nil
  then show ?case by simp
next
  case (Cons kv items)
  obtain k v where kv: "kv = (k, v)" by (cases kv)
  show ?case
  proof (cases "is_standalone_pii k v")
    case True
    with Cons.prems(1) obtain red1 where r1: "redact_standalone k v red = Inr red1"
      and rest: "scan_fields items (red1, True, if k \<in> set combinatorial_pii \<and> truthy v then pres @ [k] else pres) = Inr (red', has', pres')"
      unfolding kv by (auto split: sum.splits)
    from Cons.prems(2) have kin: "k \<in> fst ` set red" unfolding kv by auto
    have keys1: "map fst red1 = map fst red" by (rule redact_standalone_keys [OF r1 kin])
    then have "fst ` set red1 = fst ` set red" by (metis set_map)
    with Cons.prems(2) have "fst ` set items \<subseteq> fst ` set red1" by auto
    from Cons.IH [OF rest this] keys1 show ?thesis by simp
  next
    case False
    with Cons.prems(1) have rest: "scan_fields items (red, has, if k \<in> set combinatorial_pii \<and> truthy v then pres @ [k] else pres) = Inr (red', has', pres')"
      unfolding kv by (auto split: sum.splits)
    from Cons.prems(2) have "fst ` set items \<subseteq> fst ` set red" by auto
    from Cons.IH [OF rest this] show ?thesis .
  qed
qed




section \<open>Matching and presence\<close>

lemma concat_map_nonempty: "(concat (map f xs) \<noteq> []) = (\<exists>x \<in> set xs. f x \<noteq> [])"
  by (induction xs) auto

lemma match_seq_Rep:
  "(match_seq (Rep cls lo hi # xs) (pos, rest) \<noteq> []) =
     (\<exists>k. lo \<le> k \<and> k \<le> length (takeWhile cls rest) \<and>
          (case hi of None \<Rightarrow> True | Some h \<Rightarrow> k \<le> h) \<and>
          match_seq xs (pos + k, drop k rest) \<noteq> [])"
proof -
  define top where
    "top = (case hi of None \<Rightarrow> length (takeWhile cls rest)
            | Some h \<Rightarrow> min h (length (takeWhile cls rest)))"
  have "(match_seq (Rep cls lo hi # xs) (pos, rest) \<noteq> []) =
          (\<exists>k \<in> set [lo..<Suc top]. match_seq xs (pos + k, drop k rest) \<noteq> [])"
    by (simp add: concat_map_nonempty Let_def top_def del: upt_Suc)
  also have "\<dots> = (\<exists>k. lo \<le> k \<and> k \<le> top \<and> match_seq xs (pos + k, drop k rest) \<noteq> [])"
    by auto
  also have "\<dots> = (\<exists>k. lo \<le> k \<and> k \<le> length (takeWhile cls rest) \<and>
          (case hi of None \<Rightarrow> True | Some h \<Rightarrow> k \<le> h) \<and>
          match_seq xs (pos + k, drop k rest) \<noteq> [])"
    by (cases hi) (auto simp: top_def)
  finally show ?thesis .
qed

lemma match_seq_Bol: "match_seq (Bol # xs) (0, rest) = match_seq xs (0, rest)"
  by simp

lemma match_seq_Eol:
  "(match_seq [Eol] (pos, rest) \<noteq> []) = (rest = [] \<or> rest = [CHR 0x0A])"
  by simp

lemma not_upi_char_at: "\<not> is_upi_char (CHR ''@'')"
  by (simp add: is_upi_char_def is_word_def code_def)

lemma upi_match_at:
  assumes "re_match pattern_upi_id s"
  shows "CHR ''@'' \<in> set s \<and> takeWhile (\<lambda>c. c \<noteq> CHR ''@'') s \<noteq> []"
proof -
  from assms obtain k j where k: "1 \<le> k" "k \<le> length (takeWhile is_upi_char s)"
    and j: "1 \<le> j" "j \<le> length (takeWhile is_at (drop k s))"
    unfolding re_match_def pattern_upi_id_def match_seq_Bol match_seq_Rep by auto
  from j have "takeWhile is_at (drop k s) \<noteq> []" by auto
  then obtain c cs where d: "drop k s = c # cs" and "is_at c"
    by (cases "drop k s") (auto split: if_splits)
  then have "CHR ''@'' \<in> set (drop k s)" by (simp add: is_at_def)
  then have at: "CHR ''@'' \<in> set s" by (rule in_set_dropD)
  from k have "takeWhile is_upi_char s \<noteq> []" by auto
  then obtain a as where s: "s = a # as" and "is_upi_char a"
    by (cases s) (auto split: if_splits)
  with not_upi_char_at have "a \<noteq> CHR ''@''" by auto
  with s have "takeWhile (\<lambda>c. c \<noteq> CHR ''@'') s \<noteq> []" by simp
  with at show ?thesis by simp
qed

lemma mask_upi_returns:
  "re_match pattern_upi_id s \<Longrightarrow> \<exists>t. mask_upi s = Inr t"
  by (drule upi_match_at) (auto simp: mask_upi_def split_once_def)

lemma redact_standalone_returns:
  "is_standalone_pii k v \<Longrightarrow> \<exists>red'. redact_standalone k v red = Inr red'"
proof (cases v)
  case (VStr s)
  assume "is_standalone_pii k v"
  with VStr show ?thesis
    using mask_upi_returns [of s]
    by (auto simp: redact_standalone_def assign_def call_str_def split: if_splits)
qed auto

lemma scan_fields_returns: "\<exists>st'. scan_fields items st = Inr st'"
proof (induction items arbitrary: st)
  case Nil
  show ?case by (rule exI [of _ st]) simp
next
  case (Cons kv items)
  obtain k v where kv: "kv = (k, v)" by (cases kv)
  obtain red has pres where st: "st = (red, has, pres)" using prod_cases3 by blast
  show ?case
  proof (cases "is_standalone_pii k v")
    case True
    then obtain red' where "redact_standalone k v red = Inr red'"
      using redact_standalone_returns by blast
    with True Cons.IH show ?thesis unfolding kv st by simp
  next
    case False
    with Cons.IH show ?thesis unfolding kv st by simp
  qed
qed

lemma is_standalone_pii_patterns:
  "is_standalone_pii k v =
     (case (patterns k, v) of (Some p, VStr s) \<Rightarrow> re_match p s | _ \<Rightarrow> False)"
  by (cases v) (auto simp: patterns_def)

lemma standalone_match_iff:
  "standalone_match r = (\<exists>kv \<in> set r. is_standalone_pii (fst kv) (snd kv))"
  by (simp add: standalone_match_def is_standalone_pii_patterns)

lemma map_of_present:
  "distinct (map fst r) \<Longrightarrow>
     set (map fst (filter is_present r)) = combinatorial_present r"
proof -
  assume d: "distinct (map fst r)"
  { fix k
    have "k \<in> set (map fst (filter is_present r)) \<longleftrightarrow> (\<exists>v. (k, v) \<in> set r \<and> is_present (k, v))"
      by force
    also have "\<dots> \<longleftrightarrow> (\<exists>v. map_of r k = Some v \<and> k \<in> set combinatorial_pii \<and> truthy v)"
      using d by (auto simp: is_present_def)
    also have "\<dots> \<longleftrightarrow> k \<in> combinatorial_present r"
      by (auto simp: combinatorial_present_def split: option.splits)
    finally have "k \<in> set (map fst (filter is_present r)) \<longleftrightarrow> k \<in> combinatorial_present r" . }
  then show ?thesis by blast
qed

lemma length_present:
  assumes "distinct (map fst r)"
  shows "length (map fst (filter is_present r)) = card (combinatorial_present r)"
proof -
  from assms have "distinct (map fst (filter is_present r))"
    by (rule distinct_map_filter)
  then have "card (set (map fst (filter is_present r))) = length (map fst (filter is_present r))"
    by (rule distinct_card)
  with map_of_present [OF assms] show ?thesis by simp
qed

lemma call_str_non_string: "\<forall>s. v \<noteq> VStr s \<Longrightarrow> call_str e f v = Inl e"
  by (cases v) (auto simp: call_str_def)

lemma redact_combinatorial_non_string:
  "k \<in> set combinatorial_pii \<Longrightarrow> \<forall>s. v \<noteq> VStr s \<Longrightarrow>
     \<exists>e. redact_combinatorial k v red = Inl e"
  by (auto simp: redact_combinatorial_def combinatorial_pii_def assign_def call_str_non_string)

lemma redact_fields_raises:
  assumes "k \<in> set keys" "map_of r k = Some v" "k \<in> set combinatorial_pii" "\<forall>s. v \<noteq> VStr s"
  shows "\<exists>e. redact_fields r keys red = Inl e"
  using assms(1)
proof (induction keys arbitrary: red)
  case Nil
  then show ?case by simp
next
  case (Cons key keys)
  show ?case
  proof (cases "key = k")
    case True
    from redact_combinatorial_non_string [OF assms(3,4)]
    obtain e where "redact_combinatorial k v red = Inl e" by blast
    with True assms(2) show ?thesis by (simp add: lookup_def)
  next
    case False
    with Cons.prems have "k \<in> set keys" by simp
    from Cons.IH [OF this] show ?thesis
      by (auto split: sum.splits)
  qed
qed

lemma process_record_unfold:
  assumes "distinct (map fst r)"
  obtains red1 has where
    "scan_fields r (r, False, []) = Inr (red1, has, map fst (filter is_present r))"
    "has = standalone_match r"
    "map fst red1 = map fst r"
    "process_record r =
       (if 2 \<le> card (combinatorial_present r)
        then (case redact_fields r (map fst (filter is_present r)) red1 of
                Inl x \<Rightarrow> Inl x | Inr red \<Rightarrow> Inr (red, True))
        else Inr (red1, standalone_match r))"
proof -
  obtain red1 has pres where s: "scan_fields r (r, False, []) = Inr (red1, has, pres)"
    using scan_fields_returns [of r "(r, False, [])"] by (metis prod_cases3)
  from scan_fields_present [OF s] have p: "pres = map fst (filter is_present r)" by simp
  from scan_fields_has [OF s] have h: "has = standalone_match r"
    by (simp add: standalone_match_iff)
  from scan_fields_keys [OF s] have k: "map fst red1 = map fst r" by simp
  have "process_record r =
       (if 2 \<le> card (combinatorial_present r)
        then (case redact_fields r (map fst (filter is_present r)) red1 of
                Inl x \<Rightarrow> Inl x | Inr red \<Rightarrow> Inr (red, True))
        else Inr (red1, standalone_match r))"
    using length_present [OF assms]
    by (simp add: process_record_def s p h split: sum.splits)
  with s p h k that show ?thesis by blast
qed

section \<open>Claims about process_record\<close>

text \<open>
  C10. There are records on which \<open>process_record\<close> raises: whenever at least two
  combinatorial fields hold truthy values and one of them holds a truthy value that is
  not a string, the threshold is reached, the field's mask function is applied to that
  value and the call fails, so no (redacted record, is_pii) pair is returned.
\<close>

theorem process_record_raises_on_non_string:
  assumes "distinct (map fst r)" and "(k, v) \<in> set r" and "k \<in> set combinatorial_pii"
    and "truthy v" and "\<forall>s. v \<noteq> VStr s" and "2 \<le> card (combinatorial_present r)"
  shows "\<exists>e. process_record r = Inl e"
proof -
  from assms(1) obtain red1 has where
    pr: "process_record r =
       (if 2 \<le> card (combinatorial_present r)
        then (case redact_fields r (map fst (filter is_present r)) red1 of
                Inl x \<Rightarrow> Inl x | Inr red \<Rightarrow> Inr (red, True))
        else Inr (red1, standalone_match r))"
    by (rule process_record_unfold)
  from assms(1,2) have m: "map_of r k = Some v" by simp
  from assms(2,3,4) have "k \<in> set (map fst (filter is_present r))"
    by (force simp: is_present_def)
  from redact_fields_raises [OF this m assms(3,5)]
  obtain e where "redact_fields r (map fst (filter is_present r)) red1 = Inl e" by blast
  with pr assms(6) show ?thesis by simp
qed

text \<open>The instance with \<open>ip_address\<close> given as a number.\<close>

theorem process_record_raises_on_non_string_witness:
  "distinct (map fst [(''name'', VStr ''John Doe''), (''ip_address'', VInt 19216811)]) \<and>
   process_record [(''name'', VStr ''John Doe''), (''ip_address'', VInt 19216811)]
     = Inl AttributeError"
proof -
  let ?r = "[(''name'', VStr ''John Doe''), (''ip_address'', VInt 19216811)]"
  have d: "distinct (map fst ?r)" by simp
  have c: "2 \<le> card (combinatorial_present ?r)"
    by code_simp
  have "\<exists>e. process_record ?r = Inl e"
    by (rule process_record_raises_on_non_string [OF d _ _ _ _ c, of "''ip_address''" "VInt 19216811"])
       (simp_all add: combinatorial_pii_def)
  moreover have "process_record ?r = Inl AttributeError" by code_simp
  ultimately show ?thesis using d by simp
qed

lemma replicate_6: "replicate 6 c = [c, c, c, c, c, c]"
  by (simp add: numeral_eq_Suc)

section \<open>Claims about the masking functions\<close>

text \<open>
  C7. For every string of exactly 10 decimal digits, \<open>mask_phone\<close> returns a string of
  the same length 10 whose first 2 and last 2 characters are those of the input and whose
  middle 6 characters are \<open>XXXXXX\<close>.
\<close>

theorem mask_phone_ten_digits:
  assumes "length s = 10" and "list_all is_decimal s"
  shows "length (mask_phone s) = 10 \<and> take 2 (mask_phone s) = take 2 s \<and>
         drop 8 (mask_phone s) = drop 8 s \<and> take 6 (drop 2 (mask_phone s)) = ''XXXXXX''"
  using assms(1) by (simp add: mask_phone_def replicate_6)

text \<open>The documented example \<open>9876543210\<close>.\<close>

theorem mask_phone_ten_digits_witness:
  "length ''9876543210'' = 10 \<and> list_all is_decimal ''9876543210'' \<and>
   mask_phone ''9876543210'' = ''98XXXXXX10'' \<and>
   take 6 (drop 2 (mask_phone ''9876543210'')) = ''XXXXXX''"
proof -
  have l: "length ''9876543210'' = 10" by simp
  have d: "list_all is_decimal ''9876543210''" by (simp add: is_decimal_def code_def)
  have "mask_phone ''9876543210'' = ''98XXXXXX10''" by (simp add: mask_phone_def replicate_6)
  with mask_phone_ten_digits [OF l d] l d show ?thesis by simp
qed

text \<open>
  The phone pattern matches exactly the strings that start with ten decimals and end
  there or with one newline after them. Every string of ten decimals is therefore
  detected, as C2 says.
\<close>

lemma phone_match_iff:
  "re_match pattern_phone s =
     (10 \<le> length (takeWhile is_decimal s) \<and> (drop 10 s = [] \<or> drop 10 s = [CHR 0x0A]))"
  unfolding re_match_def pattern_phone_def match_seq_Bol match_seq_Rep match_seq_Eol
  by auto

lemma phone_ten_digits_match:
  assumes "length s = 10" and "list_all is_decimal s"
  shows "is_standalone_pii ''phone'' (VStr s)"
proof -
  from assms(2) have "takeWhile is_decimal s = s" by (simp add: list_all_iff)
  then have "length (takeWhile is_decimal s) = length s" by (simp only:)
  with assms(1) show ?thesis by (simp add: phone_match_iff)
qed

text \<open>
  C2. \<open>is_standalone_pii('phone', s)\<close> is true for ten decimals and false for every
  other string. The code returns true for ten decimals followed by a newline, a string
  of length 11 with a character that is no digit.
\<close>

theorem phone_pattern_accepts_trailing_newline:
  "is_standalone_pii ''phone'' (VStr (''9876543210'' @ [CHR 0x0A])) \<and>
   length (''9876543210'' @ [CHR 0x0A]) = 11 \<and>
   \<not> is_decimal (CHR 0x0A)"
  by (simp add: phone_match_iff is_decimal_def code_def)

lemma split_once_at:
  "sep \<notin> set a \<Longrightarrow> split_once sep (a @ sep # b) = [a, b]"
  by (simp add: split_once_def takeWhile_tail dropWhile_append3 dropWhile_append)

text \<open>
  C8. \<open>mask_email('john.doe@example.com')\<close> returns \<open>j***@example.com\<close>, as the
  docstring of \<open>mask_email\<close> says. The code returns \<open>j*******@example.com\<close>: the
  local part has 8 characters and is replaced by its first character and
  max(3, 8 - 1) = 7 stars.
\<close>

theorem mask_email_docstring_example:
  "mask_email ''john.doe@example.com'' = Inr ''j*******@example.com'' \<and>
   mask_email ''john.doe@example.com'' \<noteq> Inr ''j***@example.com''"
  by (simp add: mask_email_def split_once_def stars_def)

text \<open>
  C4, as stated: no masking function raises on the empty string. The empty string has
  no \<open>@\<close>, so \<open>mask_upi\<close> and \<open>mask_email\<close> fail to unpack the split.
\<close>

theorem mask_empty_counterexample:
  "mask_upi [] = Inl ValueError \<and> mask_email [] = Inl ValueError"
  by (simp add: mask_upi_def mask_email_def split_once_def)

text \<open>
  C4, amended: applied to the empty string, \<open>mask_phone\<close>, \<open>mask_aadhar\<close>,
  \<open>mask_passport\<close>, \<open>mask_name\<close>, \<open>mask_address\<close>, \<open>mask_device_id\<close> and
  \<open>mask_ip_address\<close> return a degenerate string, while \<open>mask_upi\<close> and \<open>mask_email\<close>
  raise ValueError.
\<close>

theorem mask_empty:
  "mask_phone [] = ''XXXXXX'' \<and> mask_aadhar [] = ''XXXX XXXX '' \<and> mask_passport [] = [] \<and>
   mask_name [] = [] \<and> mask_address [] = [] \<and> mask_device_id [] = [] \<and>
   mask_ip_address [] = [] \<and>
   call_str AttributeError mask_upi (VStr []) = Inl ValueError \<and>
   call_str AttributeError mask_email (VStr []) = Inl ValueError"
  by (simp add: mask_phone_def replicate_6 mask_aadhar_def mask_passport_def mask_name_def mask_address_def
      mask_device_id_def mask_ip_address_def split_ws_def split_all_def stars_def
      call_str_def mask_upi_def mask_email_def split_once_def)

text \<open>
  C9, as stated: for every masking function and raw value, masking the masked value
  again changes it. Masking a masked phone number changes nothing.
\<close>

theorem remask_counterexample:
  "mask_phone (mask_phone ''9876543210'') = mask_phone ''9876543210''"
  by (simp add: mask_phone_def replicate_6)

text \<open>
  C9, amended: a masking function is a function of the value alone, and masking twice
  may or may not differ from masking once. \<open>mask_phone\<close> is idempotent on every value
  of 10 characters and \<open>mask_aadhar\<close> on every value of 12; \<open>mask_address\<close> changes
  the masked \<open>123 Main St\<close> again, and \<open>mask_upi\<close> the masked \<open>9876543210@upi\<close>.
\<close>

theorem remask:
  "(\<forall>s. length s = 10 \<longrightarrow> mask_phone (mask_phone s) = mask_phone s) \<and>
   (\<forall>s. length s = 12 \<longrightarrow> mask_aadhar (mask_aadhar s) = mask_aadhar s) \<and>
   mask_address (mask_address ''123 Main St'') \<noteq> mask_address ''123 Main St'' \<and>
   (case mask_upi ''9876543210@upi'' of Inl e \<Rightarrow> False | Inr m \<Rightarrow> mask_upi m \<noteq> Inr m)"
proof -
  have "\<forall>s. length s = 10 \<longrightarrow> mask_phone (mask_phone s) = mask_phone s"
    by (simp add: mask_phone_def)
  moreover have "\<forall>s. length s = 12 \<longrightarrow> mask_aadhar (mask_aadhar s) = mask_aadhar s"
    by (simp add: mask_aadhar_def)
  moreover have "mask_address (mask_address ''123 Main St'') \<noteq> mask_address ''123 Main St''"
    by code_simp
  moreover have "case mask_upi ''9876543210@upi'' of Inl e \<Rightarrow> False | Inr m \<Rightarrow> mask_upi m \<noteq> Inr m"
    by code_simp
  ultimately show ?thesis by blast
qed

text \<open>Idempotence of \<open>mask_phone\<close> and \<open>mask_aadhar\<close> at concrete values.\<close>

theorem remask_witness:
  "length ''9876543210'' = 10 \<and> mask_phone (mask_phone ''9876543210'') = ''98XXXXXX10'' \<and>
   length ''123456789012'' = 12 \<and>
   mask_aadhar (mask_aadhar ''123456789012'') = ''XXXX XXXX 9012''"
proof -
  have l: "length ''9876543210'' = 10" "length ''123456789012'' = 12" by simp_all
  have m: "mask_phone ''9876543210'' = ''98XXXXXX10''"
    "mask_aadhar ''123456789012'' = ''XXXX XXXX 9012''"
    by (simp_all add: mask_phone_def mask_aadhar_def replicate_6)
  from remask l have "mask_phone (mask_phone ''9876543210'') = mask_phone ''9876543210''"
    and "mask_aadhar (mask_aadhar ''123456789012'') = mask_aadhar ''123456789012''"
    by blast+
  with l m show ?thesis by simp
qed

section \<open>Classification, frame and failure of process_record\<close>



lemma redact_combinatorial_string_error:
  "redact_combinatorial k (VStr s) red = Inl e \<Longrightarrow> e = ValueError"
  by (auto simp: redact_combinatorial_def assign_def call_str_def mask_email_def
      split: if_splits list.splits sum.splits)

lemma redact_fields_string_error:
  assumes "\<forall>k \<in> set keys. \<exists>s. map_of r k = Some (VStr s)"
    and "redact_fields r keys red = Inl e"
  shows "e = ValueError"
  using assms
proof (induction keys arbitrary: red)
  case Nil
  then show ?case by simp
next
  case (Cons k keys)
  then obtain s where s: "map_of r k = Some (VStr s)" by auto
  show ?case
  proof (cases "redact_combinatorial k (VStr s) red")
    case (Inl x)
    with Cons.prems(2) s have "x = e" by (simp add: lookup_def)
    with Inl redact_combinatorial_string_error show ?thesis by blast
  next
    case (Inr red1)
    with Cons.prems(2) s have "redact_fields r keys red1 = Inl e" by (simp add: lookup_def)
    with Cons show ?thesis by simp
  qed
qed

lemma redact_fields_malformed_email:
  assumes "''email'' \<in> set keys" "map_of r ''email'' = Some (VStr s)" "CHR ''@'' \<notin> set s"
  shows "\<exists>e. redact_fields r keys red = Inl e"
  using assms(1)
proof (induction keys arbitrary: red)
  case Nil
  then show ?case by simp
next
  case (Cons key keys)
  show ?case
  proof (cases "key = ''email''")
    case True
    with assms(2,3) show ?thesis
      by (simp add: lookup_def redact_combinatorial_def assign_def call_str_def mask_email_def
          split_once_def)
  next
    case False
    with Cons.prems have "''email'' \<in> set keys" by simp
    from Cons.IH [OF this] show ?thesis by (auto split: sum.splits)
  qed
qed









text \<open>
  C5, as stated: a value without the separator makes the implementation signal a
  MalformedFieldError that names the field and the value. The exception raised is the
  ValueError of unpacking the split; the program defines no exception of its own.
\<close>

theorem malformed_separator_counterexample:
  "mask_email ''john.doe.example.com'' = Inl ValueError \<and>
   process_record [(''name'', VStr ''John Doe''), (''email'', VStr ''john.doe.example.com'')]
     = Inl ValueError"
  by code_simp

text \<open>
  C5, amended: \<open>mask_email\<close> and \<open>mask_upi\<close> raise ValueError on every value
  without \<open>@\<close>. A record whose non-empty email has no \<open>@\<close> and which reaches the
  combinatorial threshold makes \<open>process_record\<close> raise instead of returning a
  redacted record, and the exception is ValueError when all present combinatorial values
  are strings. A upi_id value without \<open>@\<close> never matches its pattern, so it is never
  masked.
\<close>

theorem malformed_separator:
  assumes "CHR ''@'' \<notin> set s"
  shows "mask_email s = Inl ValueError \<and> mask_upi s = Inl ValueError \<and>
         \<not> is_standalone_pii ''upi_id'' (VStr s) \<and>
         (\<forall>r. distinct (map fst r) \<and> (''email'', VStr s) \<in> set r \<and> s \<noteq> [] \<and>
               2 \<le> card (combinatorial_present r) \<longrightarrow>
               (\<exists>e. process_record r = Inl e) \<and>
               ((\<forall>k \<in> combinatorial_present r. \<exists>t. map_of r k = Some (VStr t)) \<longrightarrow>
                  process_record r = Inl ValueError))"
proof -
  from assms have m: "mask_email s = Inl ValueError" "mask_upi s = Inl ValueError"
    by (simp_all add: mask_email_def mask_upi_def split_once_def)
  from assms upi_match_at [of s] have u: "\<not> is_standalone_pii ''upi_id'' (VStr s)" by auto
  have "(\<exists>e. process_record r = Inl e) \<and>
        ((\<forall>k \<in> combinatorial_present r. \<exists>t. map_of r k = Some (VStr t)) \<longrightarrow>
           process_record r = Inl ValueError)"
    if d: "distinct (map fst r)" and i: "(''email'', VStr s) \<in> set r" and ne: "s \<noteq> []"
      and c: "2 \<le> card (combinatorial_present r)" for r
  proof -
    from d obtain red1 has where
      pr: "process_record r =
         (if 2 \<le> card (combinatorial_present r)
          then (case redact_fields r (map fst (filter is_present r)) red1 of
                  Inl x \<Rightarrow> Inl x | Inr red \<Rightarrow> Inr (red, True))
          else Inr (red1, standalone_match r))"
      by (rule process_record_unfold)
    from d i have mo: "map_of r ''email'' = Some (VStr s)" by simp
    from i ne have "''email'' \<in> set (map fst (filter is_present r))"
      by (force simp: is_present_def combinatorial_pii_def)
    from redact_fields_malformed_email [OF this mo assms]
    obtain e where e: "redact_fields r (map fst (filter is_present r)) red1 = Inl e" by blast
    with pr c have raised: "process_record r = Inl e" by simp
    have "e = ValueError" if "\<forall>k \<in> combinatorial_present r. \<exists>t. map_of r k = Some (VStr t)"
    proof -
      from that map_of_present [OF d]
      have "\<forall>k \<in> set (map fst (filter is_present r)). \<exists>t. map_of r k = Some (VStr t)" by simp
      from redact_fields_string_error [OF this e] show ?thesis .
    qed
    with raised show ?thesis by blast
  qed
  with m u show ?thesis by blast
qed

text \<open>The record with a name and the email \<open>john.doe.example.com\<close>.\<close>

theorem malformed_separator_witness:
  "CHR ''@'' \<notin> set ''john.doe.example.com'' \<and>
   distinct (map fst [(''name'', VStr ''John Doe''), (''email'', VStr ''john.doe.example.com'')]) \<and>
   2 \<le> card (combinatorial_present
          [(''name'', VStr ''John Doe''), (''email'', VStr ''john.doe.example.com'')]) \<and>
   (\<exists>e. process_record [(''name'', VStr ''John Doe''), (''email'', VStr ''john.doe.example.com'')]
          = Inl e) \<and>
   \<not> is_standalone_pii ''upi_id'' (VStr ''john.doe.example.com'')"
proof -
  let ?s = "''john.doe.example.com''"
  let ?r = "[(''name'', VStr ''John Doe''), (''email'', VStr ?s)]"
  have a: "CHR ''@'' \<notin> set ?s" by simp
  have d: "distinct (map fst ?r)" by simp
  have c: "2 \<le> card (combinatorial_present ?r)" by code_simp
  have i: "(''email'', VStr ?s) \<in> set ?r" "?s \<noteq> []" by simp_all
  from malformed_separator [OF a] d c i
  have "(\<exists>e. process_record ?r = Inl e) \<and> \<not> is_standalone_pii ''upi_id'' (VStr ?s)" by blast
  with a d c show ?thesis by blast
qed

section \<open>Runs of original characters in masked values\<close>

text \<open>
  A masked value has the form \<open>a @ f @ b\<close>, where \<open>a\<close> and \<open>b\<close> are copied from the
  original and \<open>f\<close> is the fill. A window longer than both \<open>a\<close> and \<open>b\<close> contains a
  fill character, so it is no window of an original that has no fill character.
\<close>

lemma windows_mem:
  "w \<in> set (windows n xs) \<longleftrightarrow> (\<exists>i. i + n \<le> length xs \<and> w = take n (drop i xs))"
proof
  assume "w \<in> set (windows n xs)"
  then obtain i where "n \<le> length xs" "i < Suc (length xs - n)" "w = take n (drop i xs)"
    by (auto simp: windows_def split: if_splits simp del: upt_Suc)
  then have "i + n \<le> length xs" by arith
  with \<open>w = take n (drop i xs)\<close> show "\<exists>i. i + n \<le> length xs \<and> w = take n (drop i xs)"
    by blast
next
  assume "\<exists>i. i + n \<le> length xs \<and> w = take n (drop i xs)"
  then obtain i where i: "i + n \<le> length xs" "w = take n (drop i xs)" by blast
  then have "n \<le> length xs" "i \<in> set [0..<Suc (length xs - n)]" by auto
  with i(2) show "w \<in> set (windows n xs)"
    by (auto simp: windows_def simp del: upt_Suc)
qed

lemma window_subset: "w \<in> set (windows n xs) \<Longrightarrow> set w \<subseteq> set xs"
  by (auto simp: windows_mem dest: in_set_takeD in_set_dropD)

lemma window_hits_fill:
  assumes w: "w \<in> set (windows n (a @ f @ b))"
    and a: "length a < n" and b: "length b < n" and f: "f \<noteq> []"
  shows "\<exists>c \<in> set f. c \<in> set w"
proof -
  from w obtain i where i: "i + n \<le> length (a @ f @ b)" and weq: "w = take n (drop i (a @ f @ b))"
    by (auto simp: windows_mem)
  define j where "j = (if i \<le> length a then length a else i)"
  have j1: "i \<le> j" "j < i + n" using a by (auto simp: j_def)
  have j2: "length a \<le> j" "j < length a + length f"
    using i b f by (auto simp: j_def)
  have nth_window: "take n (drop i xs) ! (j - i) = xs ! j"
    and len_window: "length (take n (drop i xs)) = n"
    if "i + n \<le> length xs" for xs :: "'a list"
    using that j1 by simp_all
  from i have "w ! (j - i) = (a @ f @ b) ! j" unfolding weq by (rule nth_window)
  also from j2 have "\<dots> = f ! (j - length a)" by (auto simp: nth_append)
  finally have "w ! (j - i) = f ! (j - length a)" .
  moreover from j2 have "f ! (j - length a) \<in> set f" by simp
  moreover from i have "length w = n" unfolding weq by (rule len_window)
  with j1 have "w ! (j - i) \<in> set w" by simp
  ultimately show ?thesis by metis
qed

lemma no_run_survives:
  assumes "length a < n" and "length b < n" and "f \<noteq> []" and "set f \<inter> set v = {}"
  shows "\<not> run_survives n v (a @ f @ b)"
proof
  assume "run_survives n v (a @ f @ b)"
  then obtain w where wv: "w \<in> set (windows n v)" and wo: "w \<in> set (windows n (a @ f @ b))"
    by (auto simp: run_survives_def)
  from window_hits_fill [OF wo assms(1,2,3)] obtain c where "c \<in> set f" "c \<in> set w" by blast
  with window_subset [OF wv] assms(4) show False by blast
qed

lemma not_decimal_fill: "\<not> is_decimal (CHR ''X'')" "\<not> is_decimal (CHR '' '')"
  by (simp_all add: is_decimal_def code_def)

lemma mask_phone_no_run:
  assumes "length s = 10" "list_all is_decimal s" "3 \<le> n"
  shows "\<not> run_survives n s (mask_phone s)"
proof -
  from assms(2) not_decimal_fill have "set (replicate 6 (CHR ''X'')) \<inter> set s = {}"
    by (auto simp: list_all_iff)
  from no_run_survives [OF _ _ _ this, of "take 2 s" n "drop (length s - 2) s"] assms(1,3)
  show ?thesis by (simp add: mask_phone_def)
qed

lemma mask_aadhar_no_run:
  assumes "length s = 12" "list_all is_decimal s" "5 \<le> n"
  shows "\<not> run_survives n s (mask_aadhar s)"
proof -
  from assms(2) not_decimal_fill have "set ''XXXX XXXX '' \<inter> set s = {}"
    by (auto simp: list_all_iff)
  from no_run_survives [OF _ _ _ this, of "[]" n "drop (length s - 4) s"] assms(1,3)
  show ?thesis by (simp add: mask_aadhar_def)
qed

lemma mask_aadhar_keeps_last_four:
  assumes "length s = 12"
  shows "run_survives 4 s (mask_aadhar s)"
proof -
  have "drop 8 s \<in> set (windows 4 s)"
    using assms by (auto simp: windows_mem intro!: exI [of _ 8])
  moreover have "drop 8 s \<in> set (windows 4 (mask_aadhar s))"
    using assms by (auto simp: windows_mem mask_aadhar_def intro!: exI [of _ 10])
  ultimately show ?thesis by (auto simp: run_survives_def)
qed

lemma mask_passport_no_run:
  assumes "4 < length s" "CHR ''X'' \<notin> set s" "4 \<le> n"
  shows "\<not> run_survives n s (mask_passport s)"
proof -
  from assms(2) have "set (replicate (length s - 4) (CHR ''X'')) \<inter> set s = {}" by auto
  from no_run_survives [OF _ _ _ this, of "[s ! 0]" n "drop (length s - 3) s"] assms(1,3)
  show ?thesis by (simp add: mask_passport_def)
qed

lemma mask_device_id_no_run:
  assumes "CHR ''*'' \<notin> set s" "2 \<le> n"
  shows "\<not> run_survives n s (mask_device_id s)"
proof (cases "2 < length s")
  case True
  from assms(1) have "set (stars (length s - 2)) \<inter> set s = {}" by (auto simp: stars_def)
  from no_run_survives [OF _ _ _ this, of "[s ! 0]" n "[s ! (length s - 1)]"] assms(2) True
  show ?thesis by (simp add: mask_device_id_def stars_def)
next
  case False
  show ?thesis
  proof (cases "s = []")
    case True
    with assms(2) show ?thesis
      by (simp add: run_survives_def windows_def mask_device_id_def stars_def)
  next
    case ne: False
    from assms(1) have "set (stars (length s)) \<inter> set s = {}" by (auto simp: stars_def)
    from no_run_survives [OF _ _ _ this, of "[]" n "[]"] assms(2) False ne
    show ?thesis by (simp add: mask_device_id_def stars_def)
  qed
qed

text \<open>
  The words of a masked name or address start with at most one plain character and
  continue with stars; a numeric word of an address also ends with its last digit. Read
  across the joining spaces, fewer than 3 (name) or 4 (address) characters are ever
  without a star.
\<close>

lemma plain_ok_append:
  "plain_ok n cur (xs @ ys) = (plain_ok n cur xs \<and> plain_ok n (trail cur xs) ys)"
  by (induction xs arbitrary: cur) auto

lemma trail_append: "trail cur (xs @ ys) = trail (trail cur xs) ys"
  by (induction xs arbitrary: cur) auto

lemma plain_ok_stars [simp]: "plain_ok n cur (stars k)"
  by (induction k arbitrary: cur) (auto simp: stars_def)

lemma trail_stars [simp]: "0 < k \<Longrightarrow> trail cur (stars k) = 0"
proof (induction k arbitrary: cur)
  case 0
  then show ?case by simp
next
  case (Suc k)
  then show ?case by (cases k) (auto simp: stars_def)
qed

lemma plain_ok_less_cur: "plain_ok n cur xs \<Longrightarrow> cur' \<le> cur \<Longrightarrow> plain_ok n cur' xs"
proof (induction xs arbitrary: cur cur')
  case Nil
  then show ?case by simp
next
  case (Cons c cs)
  then show ?case by (auto split: if_splits)
qed

lemma plain_ok_more_n: "plain_ok n cur xs \<Longrightarrow> n \<le> n' \<Longrightarrow> plain_ok n' cur xs"
  by (induction xs arbitrary: cur) (auto split: if_splits)

lemma plain_ok_drop: "plain_ok n cur xs \<Longrightarrow> plain_ok n 0 (drop i xs)"
proof (induction i arbitrary: cur xs)
  case 0
  then show ?case by (auto intro: plain_ok_less_cur)
next
  case (Suc i)
  then show ?case by (cases xs) (auto split: if_splits)
qed

lemma plain_ok_take_star:
  "plain_ok n cur xs \<Longrightarrow> cur < n \<Longrightarrow> n - cur \<le> length xs \<Longrightarrow>
     CHR ''*'' \<in> set (take (n - cur) xs)"
proof (induction xs arbitrary: cur)
  case Nil
  then show ?case by simp
next
  case (Cons c cs)
  show ?case
  proof (cases "c = CHR ''*''")
    case True
    with Cons.prems show ?thesis by (cases "n - cur") auto
  next
    case False
    with Cons.prems have "plain_ok n (Suc cur) cs" "Suc cur < n" "n - Suc cur \<le> length cs"
      by auto
    from Cons.IH [OF this] have "CHR ''*'' \<in> set (take (n - Suc cur) cs)" .
    moreover from \<open>Suc cur < n\<close> have "n - cur = Suc (n - Suc cur)" by arith
    then have "take (n - cur) (c # cs) = c # take (n - Suc cur) cs" by simp
    ultimately show ?thesis by simp
  qed
qed

lemma window_has_star:
  assumes "plain_ok n 0 xs" and "0 < n" and "w \<in> set (windows n xs)"
  shows "CHR ''*'' \<in> set w"
proof -
  from assms(3) obtain i where i: "i + n \<le> length xs" "w = take n (drop i xs)"
    by (auto simp: windows_mem)
  from plain_ok_drop [OF assms(1)] have "plain_ok n 0 (drop i xs)" .
  from plain_ok_take_star [OF this assms(2)] i show ?thesis by simp
qed

lemma plain_ok_no_run:
  assumes "plain_ok m 0 out" and "0 < m" and "m \<le> n" and "CHR ''*'' \<notin> set v"
  shows "\<not> run_survives n v out"
proof
  assume "run_survives n v out"
  then obtain w where wv: "w \<in> set (windows n v)" and wo: "w \<in> set (windows n out)"
    by (auto simp: run_survives_def)
  from plain_ok_more_n [OF assms(1,3)] have "plain_ok n 0 out" .
  from window_has_star [OF this _ wo] assms(2,3) have "CHR ''*'' \<in> set w" by simp
  with window_subset [OF wv] assms(4) show False by blast
qed

lemma plain_ok_join:
  assumes "\<forall>m \<in> set ms. \<forall>cur \<le> a. plain_ok n cur m \<and> trail cur m \<le> t"
    and "Suc t \<le> a" and "Suc t < n" and "cur \<le> a"
  shows "plain_ok n cur (join '' '' ms)"
  using assms(1,4)
proof (induction "'' ''" ms arbitrary: cur rule: join.induct)
  case 1
  then show ?case by simp
next
  case (2 w)
  then show ?case by simp
next
  case (3 w v va)
  from "3.prems" have w: "plain_ok n cur w" "trail cur w \<le> t" by auto
  from "3.prems"(1) have rest: "\<forall>m \<in> set (v # va). \<forall>cur \<le> a. plain_ok n cur m \<and> trail cur m \<le> t"
    by simp
  from w(2) assms(2) have "Suc (trail cur w) \<le> a" by simp
  from "3.hyps" [OF rest this] have "plain_ok n (Suc (trail cur w)) (join '' '' (v # va))" .
  with w assms(3) show ?case by (simp add: plain_ok_append)
qed

lemma mask_name_part_ok:
  "cur \<le> 1 \<Longrightarrow> plain_ok 3 cur (mask_name_part w) \<and> trail cur (mask_name_part w) \<le> 0"
proof -
  assume c: "cur \<le> 1"
  have s3: "''***'' = stars 3" by (simp add: stars_def numeral_eq_Suc)
  show ?thesis
  proof (cases "length w > 1")
    case True
    with c show ?thesis by (simp add: mask_name_part_def trail_append)
  next
    case False
    then have "w = [] \<or> (\<exists>x. w = [x])" by (cases w) auto
    with c False show ?thesis
      unfolding mask_name_part_def s3 by (auto simp: trail_append plain_ok_append)
  qed
qed

lemma mask_address_word_ok:
  "cur \<le> 2 \<Longrightarrow> plain_ok 4 cur (mask_address_word w) \<and> trail cur (mask_address_word w) \<le> 1"
proof -
  assume c: "cur \<le> 2"
  have s3: "''***'' = stars 3" by (simp add: stars_def numeral_eq_Suc)
  have ne: "isdigit w \<Longrightarrow> 0 < length w" by (simp add: isdigit_def)
  show ?thesis
  proof (cases "isdigit w")
    case True
    with c ne show ?thesis
      by (auto simp: mask_address_word_def trail_append plain_ok_append)
  next
    case nd: False
    show ?thesis
    proof (cases "length w > 1")
      case True
      with c nd show ?thesis by (simp add: mask_address_word_def trail_append)
    next
      case False
      then have "w = [] \<or> (\<exists>x. w = [x])" by (cases w) auto
      with c False nd show ?thesis
        unfolding mask_address_word_def s3 by (auto simp: trail_append plain_ok_append)
    qed
  qed
qed

lemma mask_name_plain_ok: "plain_ok 3 0 (mask_name s)"
  unfolding mask_name_def
proof (rule plain_ok_join [where a = 1 and t = 0])
  show "\<forall>m \<in> set (map mask_name_part (split_ws s)).
          \<forall>cur \<le> 1. plain_ok 3 cur m \<and> trail cur m \<le> 0"
    using mask_name_part_ok by auto
qed simp_all

lemma mask_address_plain_ok: "plain_ok 4 0 (mask_address s)"
  unfolding mask_address_def
proof (rule plain_ok_join [where a = 2 and t = 1])
  show "\<forall>m \<in> set (map mask_address_word (split_ws s)).
          \<forall>cur \<le> 2. plain_ok 4 cur m \<and> trail cur m \<le> 1"
    using mask_address_word_ok by auto
qed simp_all

lemma mask_name_no_run:
  "CHR ''*'' \<notin> set s \<Longrightarrow> 3 \<le> n \<Longrightarrow> \<not> run_survives n s (mask_name s)"
  by (rule plain_ok_no_run [OF mask_name_plain_ok]) auto

lemma mask_address_no_run:
  "CHR ''*'' \<notin> set s \<Longrightarrow> 4 \<le> n \<Longrightarrow> \<not> run_survives n s (mask_address s)"
  by (rule plain_ok_no_run [OF mask_address_plain_ok]) auto

lemma mask_email_local_no_run:
  assumes "CHR ''@'' \<notin> set l" and "CHR ''*'' \<notin> set l"
  shows "\<exists>m. mask_email (l @ ''@'' @ d) = Inr (m @ ''@'' @ d) \<and>
             (\<forall>n \<ge> 2. \<not> run_survives n l m)"
proof (cases "length l > 1")
  case True
  let ?m = "[l ! 0] @ stars (max 3 (length l - 1))"
  from assms(1) True have "mask_email (l @ ''@'' @ d) = Inr (?m @ ''@'' @ d)"
    by (simp add: mask_email_def split_once_at)
  moreover have "\<not> run_survives n l ?m" if "2 \<le> n" for n
  proof -
    from assms(2) have "set (stars (max 3 (length l - 1))) \<inter> set l = {}"
      by (auto simp: stars_def)
    from no_run_survives [OF _ _ _ this, of "[l ! 0]" n "[]"] that
    show ?thesis by (simp add: stars_def)
  qed
  ultimately show ?thesis by blast
next
  case False
  let ?m = "l @ ''***''"
  from assms(1) False have "mask_email (l @ ''@'' @ d) = Inr (?m @ ''@'' @ d)"
    by (simp add: mask_email_def split_once_at)
  moreover have "\<not> run_survives n l ?m" if "2 \<le> n" for n
  proof -
    from assms(2) have "set ''***'' \<inter> set l = {}" by simp
    from no_run_survives [OF _ _ _ this, of l n "[]"] that False
    show ?thesis by simp
  qed
  ultimately show ?thesis by blast
qed

lemma not_digit_char_X: "\<not> is_digit_char (CHR ''X'')"
  by (simp add: is_digit_char_def code_def)

lemma mask_upi_username_no_run:
  assumes "CHR ''@'' \<notin> set u" and "CHR ''*'' \<notin> set u" and "u \<noteq> []"
  shows "\<exists>m. mask_upi (u @ ''@'' @ d) = Inr (m @ ''@'' @ d) \<and>
             (\<forall>n \<ge> 3. \<not> run_survives n u m)"
proof (cases "isdigit u \<and> length u = 10")
  case True
  from assms(1) True have "mask_upi (u @ ''@'' @ d) = Inr (mask_phone u @ ''@'' @ d)"
    by (simp add: mask_upi_def split_once_at)
  moreover have "\<not> run_survives n u (mask_phone u)" if "3 \<le> n" for n
  proof -
    from True not_digit_char_X have "set (replicate 6 (CHR ''X'')) \<inter> set u = {}"
      by (auto simp: isdigit_def list_all_iff)
    from no_run_survives [OF _ _ _ this, of "take 2 u" n "drop (length u - 2) u"] True that
    show ?thesis by (simp add: mask_phone_def)
  qed
  ultimately show ?thesis by blast
next
  case False
  let ?m = "[u ! 0] @ stars (max 3 (length u - 1))"
  from assms(1,3) False have "mask_upi (u @ ''@'' @ d) = Inr (?m @ ''@'' @ d)"
    by (auto simp: mask_upi_def split_once_at)
  moreover have "\<not> run_survives n u ?m" if "3 \<le> n" for n
  proof -
    from assms(2) have "set (stars (max 3 (length u - 1))) \<inter> set u = {}"
      by (auto simp: stars_def)
    from no_run_survives [OF _ _ _ this, of "[u ! 0]" n "[]"] that
    show ?thesis by (simp add: stars_def)
  qed
  ultimately show ?thesis by blast
qed

lemma split_all_acc_sep:
  "sep \<notin> set a \<Longrightarrow>
     split_all_acc sep cur (a @ sep # rest) = (cur @ a) # split_all_acc sep [] rest"
  by (induction a arbitrary: cur) auto

lemma split_all_acc_last: "sep \<notin> set a \<Longrightarrow> split_all_acc sep cur a = [cur @ a]"
  by (induction a arbitrary: cur) auto

lemma mask_ip_four_parts:
  assumes "CHR ''.'' \<notin> set p0" "CHR ''.'' \<notin> set p1" "CHR ''.'' \<notin> set p2" "CHR ''.'' \<notin> set p3"
  shows "mask_ip_address (p0 @ ''.'' @ p1 @ ''.'' @ p2 @ ''.'' @ p3) = p0 @ ''.'' @ p1 @ ''.*.*''"
proof -
  from assms have "split_all (CHR ''.'') (p0 @ ''.'' @ p1 @ ''.'' @ p2 @ ''.'' @ p3)
      = [p0, p1, p2, p3]"
    by (simp add: split_all_def split_all_acc_sep split_all_acc_last)
  then show ?thesis by (simp add: mask_ip_address_def)
qed

lemma mask_ip_keeps_prefix:
  assumes "CHR ''.'' \<notin> set p0" "CHR ''.'' \<notin> set p1" "CHR ''.'' \<notin> set p2" "CHR ''.'' \<notin> set p3"
  shows "run_survives (length p0 + length p1 + 2)
           (p0 @ ''.'' @ p1 @ ''.'' @ p2 @ ''.'' @ p3)
           (mask_ip_address (p0 @ ''.'' @ p1 @ ''.'' @ p2 @ ''.'' @ p3))"
proof -
  let ?w = "p0 @ ''.'' @ p1 @ ''.''"
  let ?n = "length p0 + length p1 + 2"
  have "?w \<in> set (windows ?n (?w @ p2 @ ''.'' @ p3))"
    unfolding windows_mem by (rule exI [of _ 0]) simp
  moreover have "?w \<in> set (windows ?n (?w @ ''*.*''))"
    unfolding windows_mem by (rule exI [of _ 0]) simp
  ultimately have "run_survives ?n (?w @ p2 @ ''.'' @ p3) (?w @ ''*.*'')"
    unfolding run_survives_def by blast
  with mask_ip_four_parts [OF assms] show ?thesis by simp
qed

text \<open>
  C3, as stated: no masking function leaves a run of 4 or more characters of the
  original value in its output. \<open>mask_ip_address\<close> keeps the first two parts, and
  \<open>mask_aadhar\<close> the last 4 digits.
\<close>

theorem surviving_runs_counterexample:
  "run_survives 4 ''192.168.1.1'' (mask_ip_address ''192.168.1.1'') \<and>
   run_survives 4 ''123456789012'' (mask_aadhar ''123456789012'')"
  by code_simp

text \<open>
  C3, amended: \<open>mask_ip_address\<close> keeps the first two of four dot-separated parts
  with their dots, and \<open>mask_aadhar\<close> keeps the last 4 digits of a 12-digit value (no
  run of 5 or more). For a value that does not contain the fill character, no run of 3
  or more characters of a 10-digit value survives \<open>mask_phone\<close>, none of 4 or more
  survives \<open>mask_passport\<close> (value longer than 4), \<open>mask_address\<close> or, even of 3,
  \<open>mask_name\<close>, and none of 2 or more survives \<open>mask_device_id\<close>. \<open>mask_email\<close>
  and \<open>mask_upi\<close> keep \<open>@\<close> and the domain unchanged; of the local part no run of 2
  or more survives in the masked local part, of a non-empty username none of 3 or more.
\<close>

theorem surviving_runs:
  "(length s = 10 \<and> list_all is_decimal s \<longrightarrow> (\<forall>n \<ge> 3. \<not> run_survives n s (mask_phone s))) \<and>
   (length s = 12 \<and> list_all is_decimal s \<longrightarrow>
      run_survives 4 s (mask_aadhar s) \<and> (\<forall>n \<ge> 5. \<not> run_survives n s (mask_aadhar s))) \<and>
   (4 < length s \<and> CHR ''X'' \<notin> set s \<longrightarrow> (\<forall>n \<ge> 4. \<not> run_survives n s (mask_passport s))) \<and>
   (CHR ''*'' \<notin> set s \<longrightarrow> (\<forall>n \<ge> 2. \<not> run_survives n s (mask_device_id s))) \<and>
   run_survives 7 ''192.168.1.1'' (mask_ip_address ''192.168.1.1'') \<and>
   (CHR ''*'' \<notin> set s \<longrightarrow> (\<forall>n \<ge> 3. \<not> run_survives n s (mask_name s))) \<and>
   (CHR ''*'' \<notin> set s \<longrightarrow> (\<forall>n \<ge> 4. \<not> run_survives n s (mask_address s))) \<and>
   (CHR ''@'' \<notin> set l \<and> CHR ''*'' \<notin> set l \<longrightarrow>
      (\<exists>m. mask_email (l @ ''@'' @ d) = Inr (m @ ''@'' @ d) \<and>
           (\<forall>n \<ge> 2. \<not> run_survives n l m))) \<and>
   (CHR ''@'' \<notin> set l \<and> CHR ''*'' \<notin> set l \<and> l \<noteq> [] \<longrightarrow>
      (\<exists>m. mask_upi (l @ ''@'' @ d) = Inr (m @ ''@'' @ d) \<and>
           (\<forall>n \<ge> 3. \<not> run_survives n l m))) \<and>
   (CHR ''.'' \<notin> set p0 \<and> CHR ''.'' \<notin> set p1 \<and> CHR ''.'' \<notin> set p2 \<and> CHR ''.'' \<notin> set p3 \<longrightarrow>
      mask_ip_address (p0 @ ''.'' @ p1 @ ''.'' @ p2 @ ''.'' @ p3) = p0 @ ''.'' @ p1 @ ''.*.*'' \<and>
      run_survives (length p0 + length p1 + 2)
        (p0 @ ''.'' @ p1 @ ''.'' @ p2 @ ''.'' @ p3)
        (mask_ip_address (p0 @ ''.'' @ p1 @ ''.'' @ p2 @ ''.'' @ p3)))"
proof -
  have phone: "length s = 10 \<and> list_all is_decimal s \<longrightarrow>
      (\<forall>n \<ge> 3. \<not> run_survives n s (mask_phone s))"
    using mask_phone_no_run [of s] by simp
  have aadhar: "length s = 12 \<and> list_all is_decimal s \<longrightarrow>
      run_survives 4 s (mask_aadhar s) \<and> (\<forall>n \<ge> 5. \<not> run_survives n s (mask_aadhar s))"
    using mask_aadhar_no_run [of s] mask_aadhar_keeps_last_four [of s] by simp
  have passport: "4 < length s \<and> CHR ''X'' \<notin> set s \<longrightarrow>
      (\<forall>n \<ge> 4. \<not> run_survives n s (mask_passport s))"
    using mask_passport_no_run [of s] by simp
  have device: "CHR ''*'' \<notin> set s \<longrightarrow> (\<forall>n \<ge> 2. \<not> run_survives n s (mask_device_id s))"
    using mask_device_id_no_run [of s] by simp
  have ip: "run_survives 7 ''192.168.1.1'' (mask_ip_address ''192.168.1.1'')" by code_simp
  have name: "CHR ''*'' \<notin> set s \<longrightarrow> (\<forall>n \<ge> 3. \<not> run_survives n s (mask_name s))"
    using mask_name_no_run [of s] by simp
  have address: "CHR ''*'' \<notin> set s \<longrightarrow> (\<forall>n \<ge> 4. \<not> run_survives n s (mask_address s))"
    using mask_address_no_run [of s] by simp
  have email: "CHR ''@'' \<notin> set l \<and> CHR ''*'' \<notin> set l \<longrightarrow>
      (\<exists>m. mask_email (l @ ''@'' @ d) = Inr (m @ ''@'' @ d) \<and>
           (\<forall>n \<ge> 2. \<not> run_survives n l m))"
    using mask_email_local_no_run [of l d] by (intro impI) (elim conjE)
  have upi: "CHR ''@'' \<notin> set l \<and> CHR ''*'' \<notin> set l \<and> l \<noteq> [] \<longrightarrow>
      (\<exists>m. mask_upi (l @ ''@'' @ d) = Inr (m @ ''@'' @ d) \<and>
           (\<forall>n \<ge> 3. \<not> run_survives n l m))"
    using mask_upi_username_no_run [of l d] by (intro impI) (elim conjE)
  have parts: "CHR ''.'' \<notin> set p0 \<and> CHR ''.'' \<notin> set p1 \<and> CHR ''.'' \<notin> set p2 \<and>
      CHR ''.'' \<notin> set p3 \<longrightarrow>
      mask_ip_address (p0 @ ''.'' @ p1 @ ''.'' @ p2 @ ''.'' @ p3) = p0 @ ''.'' @ p1 @ ''.*.*'' \<and>
      run_survives (length p0 + length p1 + 2)
        (p0 @ ''.'' @ p1 @ ''.'' @ p2 @ ''.'' @ p3)
        (mask_ip_address (p0 @ ''.'' @ p1 @ ''.'' @ p2 @ ''.'' @ p3))"
    using mask_ip_four_parts [of p0 p1 p2 p3] mask_ip_keeps_prefix [of p0 p1 p2 p3]
    by (intro impI conjI) (elim conjE, assumption)+
  show ?thesis
    by (intro conjI) (fact phone, fact aadhar, fact passport, fact device, fact ip, fact name,
        fact address, fact email, fact upi, fact parts)
qed

text \<open>The documented examples of the nine functions.\<close>

theorem surviving_runs_witness:
  "length ''9876543210'' = 10 \<and> list_all is_decimal ''9876543210'' \<and>
   \<not> run_survives 4 ''9876543210'' (mask_phone ''9876543210'') \<and>
   length ''123456789012'' = 12 \<and> list_all is_decimal ''123456789012'' \<and>
   \<not> run_survives 5 ''123456789012'' (mask_aadhar ''123456789012'') \<and>
   4 < length ''P1234567'' \<and> CHR ''X'' \<notin> set ''P1234567'' \<and>
   \<not> run_survives 4 ''P1234567'' (mask_passport ''P1234567'') \<and>
   CHR ''*'' \<notin> set ''DEV123456'' \<and>
   \<not> run_survives 4 ''DEV123456'' (mask_device_id ''DEV123456'') \<and>
   CHR ''*'' \<notin> set ''John Doe'' \<and>
   \<not> run_survives 4 ''John Doe'' (mask_name ''John Doe'') \<and>
   CHR ''*'' \<notin> set ''123 Main St'' \<and>
   \<not> run_survives 4 ''123 Main St'' (mask_address ''123 Main St'') \<and>
   CHR ''@'' \<notin> set ''john.doe'' \<and> CHR ''*'' \<notin> set ''john.doe'' \<and>
   (\<exists>m. mask_email ''john.doe@example.com'' = Inr (m @ ''@example.com'') \<and>
        \<not> run_survives 4 ''john.doe'' m) \<and>
   CHR ''@'' \<notin> set ''user'' \<and> CHR ''*'' \<notin> set ''user'' \<and> ''user'' \<noteq> [] \<and>
   (\<exists>m. mask_upi ''user@upi'' = Inr (m @ ''@upi'') \<and> \<not> run_survives 4 ''user'' m) \<and>
   CHR ''.'' \<notin> set ''192'' \<and> CHR ''.'' \<notin> set ''168'' \<and> CHR ''.'' \<notin> set ''1'' \<and>
   mask_ip_address ''192.168.1.1'' = ''192.168.*.*'' \<and>
   run_survives 8 ''192.168.1.1'' (mask_ip_address ''192.168.1.1'')"
proof -
  have h1: "length ''9876543210'' = 10 \<and> list_all is_decimal ''9876543210''"
    by (simp add: is_decimal_def code_def)
  have h2: "length ''123456789012'' = 12 \<and> list_all is_decimal ''123456789012''"
    by (simp add: is_decimal_def code_def)
  have h3: "4 < length ''P1234567'' \<and> CHR ''X'' \<notin> set ''P1234567''" by simp
  have h4: "CHR ''*'' \<notin> set ''DEV123456''" by simp
  have h5: "CHR ''*'' \<notin> set ''John Doe''" by simp
  have h6: "CHR ''*'' \<notin> set ''123 Main St''" by simp
  have h7: "CHR ''@'' \<notin> set ''john.doe'' \<and> CHR ''*'' \<notin> set ''john.doe''" by simp
  have h8: "CHR ''@'' \<notin> set ''user'' \<and> CHR ''*'' \<notin> set ''user'' \<and> ''user'' \<noteq> []" by simp
  have h9: "CHR ''.'' \<notin> set ''192'' \<and> CHR ''.'' \<notin> set ''168'' \<and> CHR ''.'' \<notin> set ''1''" by simp
  note inst = surviving_runs [where l = "''john.doe''" and d = "''example.com''"
      and ?p0.0 = "''192''" and ?p1.0 = "''168''" and ?p2.0 = "''1''" and ?p3.0 = "''1''"]
  from inst [where s = "''9876543210''"]
  have "length ''9876543210'' = 10 \<and> list_all is_decimal ''9876543210'' \<longrightarrow>
      (\<forall>n \<ge> 3. \<not> run_survives n ''9876543210'' (mask_phone ''9876543210''))" by (elim conjE)
  with h1 have c1: "\<not> run_survives 4 ''9876543210'' (mask_phone ''9876543210'')" by simp
  from inst [where s = "''123456789012''"]
  have "length ''123456789012'' = 12 \<and> list_all is_decimal ''123456789012'' \<longrightarrow>
      run_survives 4 ''123456789012'' (mask_aadhar ''123456789012'') \<and>
      (\<forall>n \<ge> 5. \<not> run_survives n ''123456789012'' (mask_aadhar ''123456789012''))"
    by (elim conjE)
  with h2 have c2: "\<not> run_survives 5 ''123456789012'' (mask_aadhar ''123456789012'')" by simp
  from inst [where s = "''P1234567''"]
  have "4 < length ''P1234567'' \<and> CHR ''X'' \<notin> set ''P1234567'' \<longrightarrow>
      (\<forall>n \<ge> 4. \<not> run_survives n ''P1234567'' (mask_passport ''P1234567''))" by (elim conjE)
  with h3 have c3: "\<not> run_survives 4 ''P1234567'' (mask_passport ''P1234567'')" by simp
  from inst [where s = "''DEV123456''"]
  have "CHR ''*'' \<notin> set ''DEV123456'' \<longrightarrow>
      (\<forall>n \<ge> 2. \<not> run_survives n ''DEV123456'' (mask_device_id ''DEV123456''))" by (elim conjE)
  with h4 have c4: "\<not> run_survives 4 ''DEV123456'' (mask_device_id ''DEV123456'')" by simp
  from inst [where s = "''John Doe''"]
  have "CHR ''*'' \<notin> set ''John Doe'' \<longrightarrow>
      (\<forall>n \<ge> 3. \<not> run_survives n ''John Doe'' (mask_name ''John Doe''))" by (elim conjE)
  with h5 have c5: "\<not> run_survives 4 ''John Doe'' (mask_name ''John Doe'')" by simp
  from inst [where s = "''123 Main St''"]
  have "CHR ''*'' \<notin> set ''123 Main St'' \<longrightarrow>
      (\<forall>n \<ge> 4. \<not> run_survives n ''123 Main St'' (mask_address ''123 Main St''))"
    by (elim conjE)
  with h6 have c6: "\<not> run_survives 4 ''123 Main St'' (mask_address ''123 Main St'')" by simp
  from inst [where s = "[]"]
  have "CHR ''@'' \<notin> set ''john.doe'' \<and> CHR ''*'' \<notin> set ''john.doe'' \<longrightarrow>
      (\<exists>m. mask_email (''john.doe'' @ ''@'' @ ''example.com'') = Inr (m @ ''@'' @ ''example.com'') \<and>
           (\<forall>n \<ge> 2. \<not> run_survives n ''john.doe'' m))" by (elim conjE)
  with h7 obtain m where "mask_email (''john.doe'' @ ''@'' @ ''example.com'')
        = Inr (m @ ''@'' @ ''example.com'')"
    and "\<forall>n \<ge> 2. \<not> run_survives n ''john.doe'' m" by blast
  then have "mask_email ''john.doe@example.com'' = Inr (m @ ''@example.com'') \<and>
        \<not> run_survives 4 ''john.doe'' m" by simp
  then have c7: "\<exists>m. mask_email ''john.doe@example.com'' = Inr (m @ ''@example.com'') \<and>
        \<not> run_survives 4 ''john.doe'' m" by blast
  from surviving_runs [where s = "[]" and l = "''user''" and d = "''upi''"
      and ?p0.0 = "[]" and ?p1.0 = "[]" and ?p2.0 = "[]" and ?p3.0 = "[]"]
  have "CHR ''@'' \<notin> set ''user'' \<and> CHR ''*'' \<notin> set ''user'' \<and> ''user'' \<noteq> [] \<longrightarrow>
      (\<exists>m. mask_upi (''user'' @ ''@'' @ ''upi'') = Inr (m @ ''@'' @ ''upi'') \<and>
           (\<forall>n \<ge> 3. \<not> run_survives n ''user'' m))" by (elim conjE)
  with h8 obtain m' where "mask_upi (''user'' @ ''@'' @ ''upi'') = Inr (m' @ ''@'' @ ''upi'')"
    and "\<forall>n \<ge> 3. \<not> run_survives n ''user'' m'" by blast
  then have "mask_upi ''user@upi'' = Inr (m' @ ''@upi'') \<and> \<not> run_survives 4 ''user'' m'"
    by simp
  then have c8: "\<exists>m. mask_upi ''user@upi'' = Inr (m @ ''@upi'') \<and> \<not> run_survives 4 ''user'' m"
    by blast
  from inst [where s = "[]"]
  have "CHR ''.'' \<notin> set ''192'' \<and> CHR ''.'' \<notin> set ''168'' \<and> CHR ''.'' \<notin> set ''1'' \<and>
      CHR ''.'' \<notin> set ''1'' \<longrightarrow>
      mask_ip_address (''192'' @ ''.'' @ ''168'' @ ''.'' @ ''1'' @ ''.'' @ ''1'')
        = ''192'' @ ''.'' @ ''168'' @ ''.*.*'' \<and>
      run_survives (length ''192'' + length ''168'' + 2)
        (''192'' @ ''.'' @ ''168'' @ ''.'' @ ''1'' @ ''.'' @ ''1'')
        (mask_ip_address (''192'' @ ''.'' @ ''168'' @ ''.'' @ ''1'' @ ''.'' @ ''1''))"
    by (elim conjE)
  with h9 have ip1: "mask_ip_address (''192'' @ ''.'' @ ''168'' @ ''.'' @ ''1'' @ ''.'' @ ''1'')
        = ''192'' @ ''.'' @ ''168'' @ ''.*.*''"
    and ip2: "run_survives (length ''192'' + length ''168'' + 2)
        (''192'' @ ''.'' @ ''168'' @ ''.'' @ ''1'' @ ''.'' @ ''1'')
        (mask_ip_address (''192'' @ ''.'' @ ''168'' @ ''.'' @ ''1'' @ ''.'' @ ''1''))"
    by blast+
  have n8: "length ''192'' + length ''168'' + 2 = 8" by simp
  from ip1 have "mask_ip_address ''192.168.1.1'' = ''192.168.*.*''" by simp
  moreover from ip2 have "run_survives 8 ''192.168.1.1'' (mask_ip_address ''192.168.1.1'')"
    by (simp only: n8 append_Cons append_Nil)
  ultimately have c9: "mask_ip_address ''192.168.1.1'' = ''192.168.*.*'' \<and>
      run_survives 8 ''192.168.1.1'' (mask_ip_address ''192.168.1.1'')" by (rule conjI)
  from h1 h2 h3 h4 h5 h6 h7 h8 h9 c1 c2 c3 c4 c5 c6 c7 c8 c9 show ?thesis by blast
qed

end
